theory Spec2Isabelle
  imports Main "HOL-Library.Word"
begin

section \<open>Data model\<close>

text \<open>
  Series identifiers, timestamps and logical block addresses are 64-bit unsigned
  integers. A sample's value is an IEEE-754 double; the column store only copies it, so it
  is carried as its 64-bit pattern.
\<close>

type_synonym aku_ParamId = "64 word"
type_synonym aku_Timestamp = "64 word"
type_synonym LogicAddr = "64 word"
type_synonym float64 = "64 word"

text \<open>
  Modelled from the spec: the status codes of \<^verbatim>\<open>akumuli_def.h\<close> (the header is not
  part of the sources at hand). The first six are the ones \<^verbatim>\<open>column_store.cpp\<close> names;
  the other two are the remaining kinds the spec lists for inner iterators.
\<close>

datatype aku_Status =
    AKU_SUCCESS
  | AKU_ENO_DATA
  | AKU_ENOT_FOUND
  | AKU_EBAD_ARG
  | AKU_EBAD_DATA
  | AKU_ENOT_IMPLEMENTED
  | AKU_EIO
  | AKU_EUNAVAILABLE

text \<open>
  Modelled from the spec: the result of an append (\<^verbatim>\<open>nbtree.h\<close> is not part of the
  sources at hand).
\<close>

datatype NBTreeAppendResult =
    OK
  | OK_FLUSH_NEEDED
  | FAIL_BAD_ID
  | FAIL_BAD_VALUE
  | FAIL_IO

text \<open>
  Modelled from the spec: the payload tag of a sample. The code only compares it with
  \<^verbatim>\<open>AKU_PAYLOAD_FLOAT\<close>; every other tag is \<open>AKU_PAYLOAD_OTHER\<close> with its code.
\<close>

datatype aku_PayloadType = AKU_PAYLOAD_FLOAT | AKU_PAYLOAD_OTHER nat

record aku_Sample =
  paramid :: aku_ParamId
  timestamp :: aku_Timestamp
  payload_type :: aku_PayloadType
  payload_float64 :: float64

subsection \<open>The registry and the shared trees\<close>

text \<open>
  \<^verbatim>\<open>columns_\<close> maps a series id to a \<^verbatim>\<open>shared_ptr<NBTreeExtentsList>\<close>, and a
  session cache holds copies of the same pointers. The trees therefore live in a store
  addressed by handles (member names lose their trailing underscore): \<open>trees\<close> gives the tree behind every handle and \<open>fresh\<close> is
  the next handle \<^verbatim>\<open>make_shared\<close> hands out. The tree type \<open>'t\<close> and its operations
  (\<^verbatim>\<open>append\<close>, \<^verbatim>\<open>get_roots\<close>, \<^verbatim>\<open>search\<close>, \<^verbatim>\<open>force_init\<close>, the constructor) belong
  to \<^verbatim>\<open>nbtree.h\<close>; they are parameters of the functions below.
\<close>

type_synonym handle = nat

record 't ColumnStore =
  columns :: "aku_ParamId \<rightharpoonup> handle"
  trees :: "handle \<Rightarrow> 't"
  fresh :: handle

type_synonym session_cache = "aku_ParamId \<rightharpoonup> handle"

subsection \<open>Faults\<close>

text \<open>
  Undefined behaviour of the C++ is a value of the model: calling through a null
  pointer, and reading or writing a vector out of range.
\<close>

datatype fault = NullDereference | OutOfBounds

section \<open>Registry operations\<close>


text \<open>
  \<^verbatim>\<open>unordered_map::insert\<close> keeps an entry that is already there.
\<close>

definition cache_insert :: "session_cache \<Rightarrow> aku_ParamId \<Rightarrow> handle \<Rightarrow> session_cache" where
  "cache_insert c pid h = (if c pid = None then c(pid \<mapsto> h) else c)"

text \<open>
  \<^verbatim>\<open>ColumnStore::write\<close>. The result is the append result, the store, the contents of
  \<^verbatim>\<open>*rescue_points\<close> and the contents of \<^verbatim>\<open>*cache_or_null\<close> (\<open>None\<close> for a null
  pointer) after the call.
\<close>

definition ColumnStore_write ::
  "('t \<Rightarrow> aku_Timestamp \<Rightarrow> float64 \<Rightarrow> NBTreeAppendResult \<times> 't) \<Rightarrow> ('t \<Rightarrow> LogicAddr list)
     \<Rightarrow> 't ColumnStore \<Rightarrow> aku_Sample \<Rightarrow> LogicAddr list \<Rightarrow> session_cache option
     \<Rightarrow> NBTreeAppendResult \<times> 't ColumnStore \<times> LogicAddr list \<times> session_cache option" where
  "ColumnStore_write tree_append get_roots cs sample rescue_points cache_or_null =
     (let pid = paramid sample in
      case columns cs pid of
        Some h \<Rightarrow>
          let (res, t') = tree_append (trees cs h) (timestamp sample) (payload_float64 sample);
              cs' = cs\<lparr>trees := (trees cs)(h := t')\<rparr>;
              rescue' = (if res = OK_FLUSH_NEEDED then get_roots t' else rescue_points);
              cache' = (case cache_or_null of
                          None \<Rightarrow> None
                        | Some c \<Rightarrow> Some (cache_insert c pid h))
          in (res, cs', rescue', cache')
      | None \<Rightarrow> (FAIL_BAD_ID, cs, rescue_points, cache_or_null))"

section \<open>Writer session\<close>

text \<open>
  \<^verbatim>\<open>CStoreSession::write\<close>. The session's state is its private \<^verbatim>\<open>cache_\<close>; the
  registry it points to is passed along.
\<close>

definition CStoreSession_write ::
  "('t \<Rightarrow> aku_Timestamp \<Rightarrow> float64 \<Rightarrow> NBTreeAppendResult \<times> 't) \<Rightarrow> ('t \<Rightarrow> LogicAddr list)
     \<Rightarrow> 't ColumnStore \<Rightarrow> session_cache \<Rightarrow> aku_Sample \<Rightarrow> LogicAddr list
     \<Rightarrow> NBTreeAppendResult \<times> 't ColumnStore \<times> LogicAddr list \<times> session_cache" where
  "CStoreSession_write tree_append get_roots cs cache sample rescue_points =
     (if payload_type sample \<noteq> AKU_PAYLOAD_FLOAT then
        (FAIL_BAD_VALUE, cs, rescue_points, cache)
      else
        case cache (paramid sample) of
          Some h \<Rightarrow>
            let (res, t') = tree_append (trees cs h) (timestamp sample) (payload_float64 sample)
            in (res, cs\<lparr>trees := (trees cs)(h := t')\<rparr>, rescue_points, cache)
        | None \<Rightarrow>
            (case ColumnStore_write tree_append get_roots cs sample rescue_points (Some cache) of
               (res, cs', rescue', Some c') \<Rightarrow> (res, cs', rescue', c')
             | (res, cs', rescue', None) \<Rightarrow> (res, cs', rescue', cache)))"

section \<open>Concurrent callers of \<^verbatim>\<open>create_new_column\<close>\<close>










section \<open>Row iterator\<close>

text \<open>
  An inner iterator (\<^verbatim>\<open>NBTreeIterator\<close>, from \<^verbatim>\<open>nbtree.h\<close>) is a state \<open>'i\<close>
  with a read function \<open>rd\<close>, a parameter of the functions below:
  \<open>rd it sz = ((status, chunk), it')\<close> stands for
  \<^verbatim>\<open>std::tie(status, ressz) = it->read(destts, destval, sz)\<close>, where \<open>chunk\<close> is
  the \<^verbatim>\<open>ressz\<close> pairs written to \<^verbatim>\<open>destts\<close> and \<^verbatim>\<open>destval\<close> and \<open>it'\<close> is
  the iterator afterwards.
\<close>

type_synonym 'i inner_read =
  "'i \<Rightarrow> nat \<Rightarrow> (aku_Status \<times> (aku_Timestamp \<times> float64) list) \<times> 'i"

record 'i ChainIterator =
  iters :: "'i list"
  ids :: "aku_ParamId list"
  pos :: nat

definition ChainIterator_new :: "aku_ParamId list \<Rightarrow> 'i list \<Rightarrow> 'i ChainIterator" where
  "ChainIterator_new ids0 it = \<lparr>iters = it, ids = ids0, pos = 0\<rparr>"

text \<open>
  The sample \<^verbatim>\<open>dest[i]\<close> receives: the id from \<^verbatim>\<open>outids\<close>, the pair from
  \<^verbatim>\<open>destts_vec\<close> and \<^verbatim>\<open>destval_vec\<close>, and the FLOAT tag.
\<close>

definition mk_sample :: "aku_ParamId \<Rightarrow> aku_Timestamp \<times> float64 \<Rightarrow> aku_Sample" where
  "mk_sample curr_id p =
     \<lparr>paramid = curr_id, timestamp = fst p, payload_type = AKU_PAYLOAD_FLOAT,
      payload_float64 = snd p\<rparr>"

text \<open>
  The \<^verbatim>\<open>while\<close> loop of \<^verbatim>\<open>ChainIterator::read\<close>. \<open>sz\<close> is the room left,
  \<open>status\<close> the last status, and \<open>acc\<close> the first \<^verbatim>\<open>accsz\<close> entries of the three
  scratch vectors, already paired with their ids. An inner read that reports more than
  \<open>sz\<close> entries has written past the scratch vectors, and \<^verbatim>\<open>ids_[pos_]\<close> past the
  end of \<^verbatim>\<open>ids_\<close> is an out-of-range read.
\<close>

function chain_loop ::
  "'i inner_read \<Rightarrow> 'i ChainIterator \<Rightarrow> nat \<Rightarrow> aku_Status \<Rightarrow> aku_Sample list
     \<Rightarrow> fault + (aku_Status \<times> aku_Sample list) \<times> 'i ChainIterator" where
  "chain_loop rd c sz status acc =
     (if pos c < length (iters c) then
        if length (ids c) \<le> pos c then Inl OutOfBounds
        else
          case rd (iters c ! pos c) sz of
            ((status', chunk), it') \<Rightarrow>
              if sz < length chunk then Inl OutOfBounds
              else
                let curr_id = ids c ! pos c;
                    c1 = c\<lparr>iters := (iters c)[pos c := it']\<rparr>;
                    acc' = acc @ map (mk_sample curr_id) chunk;
                    sz' = sz - length chunk
                in if sz' = 0 then Inr ((status', acc'), c1)
                   else
                     let c2 = c1\<lparr>pos := Suc (pos c1)\<rparr>
                     in if status' = AKU_ENO_DATA then chain_loop rd c2 sz' status' acc'
                        else if status' \<noteq> AKU_SUCCESS then Inr ((status', acc'), c2)
                        else chain_loop rd c2 sz' status' acc'
      else Inr ((status, acc), c))"
  by pat_completeness auto
termination
  by (relation "measure (\<lambda>(rd, c, sz, status, acc). length (iters c) - pos c)") auto

declare chain_loop.simps [simp del]

text \<open>
  \<^verbatim>\<open>ChainIterator::read(dest, size)\<close>: the status, the samples written to
  \<^verbatim>\<open>dest[0..accsz)\<close> and the iterator afterwards.
\<close>

definition ChainIterator_read ::
  "'i inner_read \<Rightarrow> 'i ChainIterator \<Rightarrow> nat
     \<Rightarrow> fault + (aku_Status \<times> aku_Sample list) \<times> 'i ChainIterator" where
  "ChainIterator_read rd c sz = chain_loop rd c sz AKU_ENO_DATA []"

section \<open>Query driver\<close>

datatype OrderBy = SERIES | TIME

text \<open>
  Modelled from the spec: the query request (\<^verbatim>\<open>queryparser.h\<close> is not part of the
  sources at hand). \<^verbatim>\<open>req.select.ids\<close> is \<open>select_ids\<close>, and so on for the other
  nested members.
\<close>

record ReshapeRequest =
  select_ids :: "aku_ParamId list"
  select_begin :: aku_Timestamp
  select_end :: aku_Timestamp
  order_by :: OrderBy
  group_by_enabled :: bool
  group_by_transient_map :: "aku_ParamId \<rightharpoonup> aku_ParamId"

text \<open>
  Modelled from the spec: the query consumer (\<^verbatim>\<open>IQueryProcessor\<close>), with
  \<^verbatim>\<open>put(sample) \<rightarrow> bool\<close> (false = stop) and \<^verbatim>\<open>set_error(status)\<close>. The consumer
  records every call in \<open>history\<close>, oldest first; its answer to a \<^verbatim>\<open>put\<close> is
  \<open>respond\<close> applied to the calls made so far and the sample offered.
\<close>

datatype event = Put aku_Sample | SetError aku_Status

record IQueryProcessor =
  respond :: "event list \<Rightarrow> aku_Sample \<Rightarrow> bool"
  history :: "event list"

definition put :: "IQueryProcessor \<Rightarrow> aku_Sample \<Rightarrow> bool \<times> IQueryProcessor" where
  "put q s = (respond q (history q) s, q\<lparr>history := history q @ [Put s]\<rparr>)"

definition set_error :: "IQueryProcessor \<Rightarrow> aku_Status \<Rightarrow> IQueryProcessor" where
  "set_error q st = q\<lparr>history := history q @ [SetError st]\<rparr>"

text \<open>
  The first loop of \<^verbatim>\<open>ColumnStore::query\<close>: one \<^verbatim>\<open>search\<close> per id found in
  \<^verbatim>\<open>columns_\<close>, pushed to \<^verbatim>\<open>iters\<close>; \<^verbatim>\<open>set_error(AKU_ENOT_FOUND)\<close> per id missing.
\<close>

fun open_iters ::
  "('t \<Rightarrow> aku_Timestamp \<Rightarrow> aku_Timestamp \<Rightarrow> 'i) \<Rightarrow> 't ColumnStore \<Rightarrow> aku_Timestamp
     \<Rightarrow> aku_Timestamp \<Rightarrow> aku_ParamId list \<Rightarrow> 'i list \<Rightarrow> IQueryProcessor
     \<Rightarrow> 'i list \<times> IQueryProcessor" where
  "open_iters search cs b e [] its q = (its, q)"
| "open_iters search cs b e (pid # rest) its q =
     (case columns cs pid of
        Some h \<Rightarrow> open_iters search cs b e rest (its @ [search (trees cs h) b e]) q
      | None \<Rightarrow> open_iters search cs b e rest its (set_error q AKU_ENOT_FOUND))"

text \<open>
  The two inner \<^verbatim>\<open>for\<close> loops over a batch. The flag says whether the loop left
  \<^verbatim>\<open>query\<close> by \<^verbatim>\<open>return\<close>.
\<close>

fun check_group_by ::
  "(aku_ParamId \<rightharpoonup> aku_ParamId) \<Rightarrow> aku_Sample list \<Rightarrow> IQueryProcessor
     \<Rightarrow> bool \<times> IQueryProcessor" where
  "check_group_by m [] q = (False, q)"
| "check_group_by m (s # rest) q =
     (case m (paramid s) of
        None \<Rightarrow> (True, set_error q AKU_EBAD_DATA)
      | Some g \<Rightarrow> check_group_by m rest q)"

fun deliver :: "aku_Sample list \<Rightarrow> IQueryProcessor \<Rightarrow> bool \<times> IQueryProcessor" where
  "deliver [] q = (False, q)"
| "deliver (s # rest) q =
     (case put q s of
        (ok, q') \<Rightarrow> if \<not> ok then (True, q') else deliver rest q')"

definition dest_size :: nat where
  "dest_size = 0x1000"

text \<open>
  How a run of the driver ends: by returning, by undefined behaviour, or not within the
  number of batches allowed (\<open>OutOfFuel\<close>: the \<^verbatim>\<open>while\<close> loop may not terminate when an
  inner iterator never stops producing).
\<close>

datatype outcome = Returned | Fault fault | OutOfFuel

text \<open>
  The \<^verbatim>\<open>while (status == AKU_SUCCESS)\<close> loop; \<open>iter\<close> is the \<^verbatim>\<open>unique_ptr\<close>, \<open>None\<close>
  when null. The status is \<^verbatim>\<open>AKU_SUCCESS\<close> at every entry.
\<close>

fun query_loop ::
  "'i inner_read \<Rightarrow> ReshapeRequest \<Rightarrow> 'i ChainIterator option \<Rightarrow> IQueryProcessor \<Rightarrow> nat
     \<Rightarrow> outcome \<times> IQueryProcessor" where
  "query_loop rd req iter q 0 = (OutOfFuel, q)"
| "query_loop rd req iter q (Suc fuel) =
     (case iter of
        None \<Rightarrow> (Fault NullDereference, q)
      | Some c \<Rightarrow>
          (case ChainIterator_read rd c dest_size of
             Inl f \<Rightarrow> (Fault f, q)
           | Inr ((status, dest), c') \<Rightarrow>
               if status \<noteq> AKU_SUCCESS \<and> status \<noteq> AKU_ENO_DATA then
                 (Returned, set_error q status)
               else
                 (case (if group_by_enabled req
                        then check_group_by (group_by_transient_map req) dest q
                        else deliver dest q) of
                    (True, q') \<Rightarrow> (Returned, q')
                  | (False, q') \<Rightarrow>
                      if status = AKU_SUCCESS then query_loop rd req (Some c') q' fuel
                      else (Returned, q'))))"

text \<open>
  \<^verbatim>\<open>ColumnStore::query\<close> (the trace message apart). \<open>fuel\<close> bounds the number of
  batches read.
\<close>

definition ColumnStore_query ::
  "('t \<Rightarrow> aku_Timestamp \<Rightarrow> aku_Timestamp \<Rightarrow> 'i) \<Rightarrow> 'i inner_read \<Rightarrow> 't ColumnStore
     \<Rightarrow> ReshapeRequest \<Rightarrow> IQueryProcessor \<Rightarrow> nat \<Rightarrow> outcome \<times> IQueryProcessor" where
  "ColumnStore_query search rd cs req qproc fuel =
     (case open_iters search cs (select_begin req) (select_end req) (select_ids req) [] qproc of
        (its, q1) \<Rightarrow>
          (case (if order_by req = SERIES
                 then (Some (ChainIterator_new (select_ids req) its), q1)
                 else (None, set_error q1 AKU_ENOT_IMPLEMENTED)) of
             (iter, q2) \<Rightarrow> query_loop rd req iter q2 fuel))"

text \<open>
  \<^verbatim>\<open>CStoreSession::query\<close> forwards to the registry.
\<close>

definition CStoreSession_query ::
  "('t \<Rightarrow> aku_Timestamp \<Rightarrow> aku_Timestamp \<Rightarrow> 'i) \<Rightarrow> 'i inner_read \<Rightarrow> 't ColumnStore
     \<Rightarrow> ReshapeRequest \<Rightarrow> IQueryProcessor \<Rightarrow> nat \<Rightarrow> outcome \<times> IQueryProcessor" where
  "CStoreSession_query search rd cs req proc fuel = ColumnStore_query search rd cs req proc fuel"

subsection \<open>The driver with group-by enabled, after the spec\<close>

text \<open>
  The spec, step 2 of the query driver: for each hit, open a range iterator; for each
  miss, report \<^verbatim>\<open>NOT_FOUND\<close> and skip that id. \<open>hit_iters\<close> are the iterators opened,
  \<open>missing_ids\<close> the ids skipped.
\<close>

fun hit_iters ::
  "('t \<Rightarrow> aku_Timestamp \<Rightarrow> aku_Timestamp \<Rightarrow> 'i) \<Rightarrow> 't ColumnStore \<Rightarrow> aku_Timestamp
     \<Rightarrow> aku_Timestamp \<Rightarrow> aku_ParamId list \<Rightarrow> 'i list" where
  "hit_iters search cs b e [] = []"
| "hit_iters search cs b e (pid # rest) =
     (case columns cs pid of
        Some h \<Rightarrow> search (trees cs h) b e # hit_iters search cs b e rest
      | None \<Rightarrow> hit_iters search cs b e rest)"

definition missing_ids :: "'t ColumnStore \<Rightarrow> aku_ParamId list \<Rightarrow> aku_ParamId list" where
  "missing_ids cs pids = filter (\<lambda>pid. columns cs pid = None) pids"

text \<open>
  The spec, steps 6 and 7 with group-by enabled: repeatedly read a batch; on an error
  that is not \<^verbatim>\<open>NO_DATA\<close>, report it and return; if some sample of the batch carries an
  id that is not a key of the group-by mapping, report \<^verbatim>\<open>BAD_DATA\<close> and return; go on
  until the iterator returns \<^verbatim>\<open>NO_DATA\<close>. No sample is handed to the consumer.
\<close>

fun validate_and_drop ::
  "'i inner_read \<Rightarrow> (aku_ParamId \<rightharpoonup> aku_ParamId) \<Rightarrow> 'i ChainIterator \<Rightarrow> IQueryProcessor
     \<Rightarrow> nat \<Rightarrow> outcome \<times> IQueryProcessor" where
  "validate_and_drop rd m c q 0 = (OutOfFuel, q)"
| "validate_and_drop rd m c q (Suc fuel) =
     (case ChainIterator_read rd c dest_size of
        Inl f \<Rightarrow> (Fault f, q)
      | Inr ((status, batch), c') \<Rightarrow>
          if status \<noteq> AKU_SUCCESS \<and> status \<noteq> AKU_ENO_DATA then (Returned, set_error q status)
          else if \<exists>s \<in> set batch. m (paramid s) = None then
            (Returned, set_error q AKU_EBAD_DATA)
          else if status = AKU_ENO_DATA then (Returned, q)
          else validate_and_drop rd m c' q fuel)"

section \<open>Observations on a consumer's history\<close>

text \<open>
  The samples offered to \<^verbatim>\<open>put\<close>, in order.
\<close>

fun delivered :: "event list \<Rightarrow> aku_Sample list" where
  "delivered [] = []"
| "delivered (Put s # es) = s # delivered es"
| "delivered (SetError st # es) = delivered es"

text \<open>
  \<open>accepted r h es\<close>: when the calls \<open>es\<close> follow the calls \<open>h\<close>, the consumer
  with answers \<open>r\<close> says \<open>true\<close> to every \<^verbatim>\<open>put\<close> among them.
\<close>

fun accepted :: "(event list \<Rightarrow> aku_Sample \<Rightarrow> bool) \<Rightarrow> event list \<Rightarrow> event list \<Rightarrow> bool" where
  "accepted r h [] = True"
| "accepted r h (Put s # es) = (r h s \<and> accepted r (h @ [Put s]) es)"
| "accepted r h (SetError st # es) = accepted r (h @ [SetError st]) es"

text \<open>
  \<open>stopped r h es\<close>: the calls \<open>es\<close> end with a \<^verbatim>\<open>put\<close> that the consumer
  refuses, and it is the only refused one.
\<close>

fun stopped :: "(event list \<Rightarrow> aku_Sample \<Rightarrow> bool) \<Rightarrow> event list \<Rightarrow> event list \<Rightarrow> bool" where
  "stopped r h [] = False"
| "stopped r h (Put s # es) = (if r h s then stopped r (h @ [Put s]) es else es = [])"
| "stopped r h (SetError st # es) = stopped r (h @ [SetError st]) es"


section \<open>A small tree, iterator and consumer to run the model on\<close>

text \<open>
  The tree, its iterators and the consumer are supplied by the caller. To run the
  functions above on concrete inputs, the following stand-ins are used: a tree is the list
  of its samples, an append asks for a flush at every second sample, and the roots are one
  address counting the flushes.
\<close>

type_synonym demo_tree = "(aku_Timestamp \<times> float64) list"



definition demo_append ::
  "demo_tree \<Rightarrow> aku_Timestamp \<Rightarrow> float64 \<Rightarrow> NBTreeAppendResult \<times> demo_tree" where
  "demo_append t ts v = (if odd (length t) then OK_FLUSH_NEEDED else OK, t @ [(ts, v)])"

definition demo_get_roots :: "demo_tree \<Rightarrow> LogicAddr list" where
  "demo_get_roots t = [of_nat (length t div 2)]"

text \<open>
  A stand-in iterator is the list of the answers it will give, one per read: a status and
  the pairs it hands over (cut to the room offered). Once the list is used up it answers
  \<^verbatim>\<open>AKU_ENO_DATA\<close> with nothing.
\<close>

type_synonym demo_iter = "(aku_Status \<times> (aku_Timestamp \<times> float64) list) list"

fun demo_read :: "demo_iter inner_read" where
  "demo_read [] n = ((AKU_ENO_DATA, []), [])"
| "demo_read ((st, chunk) # rest) n = ((st, take n chunk), rest)"

definition in_range :: "aku_Timestamp \<Rightarrow> aku_Timestamp \<Rightarrow> aku_Timestamp \<times> float64 \<Rightarrow> bool" where
  "in_range b e p = (b \<le> fst p \<and> fst p < e)"

definition demo_search :: "demo_tree \<Rightarrow> aku_Timestamp \<Rightarrow> aku_Timestamp \<Rightarrow> demo_iter" where
  "demo_search t b e = [(AKU_ENO_DATA, filter (in_range b e) t)]"

text \<open>
  A registry with series 1 (one sample) and series 2 (two samples).
\<close>

definition demo_store :: "demo_tree ColumnStore" where
  "demo_store =
     \<lparr>columns = [1 \<mapsto> 0, 2 \<mapsto> 1],
      trees = (\<lambda>h. [])(0 := [(10, 7)], 1 := [(10, 8), (20, 9)]),
      fresh = 2\<rparr>"

text \<open>
  A consumer that has seen no call yet and says \<open>true\<close> to its first \<open>k\<close> samples.
\<close>

definition demo_respond :: "nat \<Rightarrow> event list \<Rightarrow> aku_Sample \<Rightarrow> bool" where
  "demo_respond k h s = (length (delivered h) < k)"

definition demo_consumer :: "nat \<Rightarrow> IQueryProcessor" where
  "demo_consumer k = \<lparr>respond = demo_respond k, history = []\<rparr>"

definition demo_request :: "aku_ParamId list \<Rightarrow> OrderBy \<Rightarrow> bool \<Rightarrow> ReshapeRequest" where
  "demo_request sel ord grp =
     \<lparr>select_ids = sel, select_begin = 0, select_end = 1000, order_by = ord,
      group_by_enabled = grp, group_by_transient_map = [1 \<mapsto> 1]\<rparr>"


text \<open>
  A tree that is the list of answers its iterator will give, and a registry whose only
  series, 2, answers its first read with an I/O error and one pair.
\<close>

definition demo_script_search :: "demo_iter \<Rightarrow> aku_Timestamp \<Rightarrow> aku_Timestamp \<Rightarrow> demo_iter" where
  "demo_script_search t b e = t"

definition demo_error_store :: "demo_iter ColumnStore" where
  "demo_error_store =
     \<lparr>columns = [2 \<mapsto> 0], trees = (\<lambda>h. [])(0 := [(AKU_EIO, [(10, 7)])]), fresh = 1\<rparr>"

section \<open>Lemmas on the chain loop\<close>

lemma chain_loop_end:
  "\<not> pos c < length (iters c) \<Longrightarrow> chain_loop rd c n st acc = Inr ((st, acc), c)"
  by (subst chain_loop.simps) simp

lemma chain_loop_unfold:
  "pos c < length (iters c) \<Longrightarrow>
   chain_loop rd c n st acc =
     (if length (ids c) \<le> pos c then Inl OutOfBounds
      else
        case rd (iters c ! pos c) n of
          ((st', chunk), it') \<Rightarrow>
            if n < length chunk then Inl OutOfBounds
            else if n - length chunk = 0 then
              Inr ((st', acc @ map (mk_sample (ids c ! pos c)) chunk),
                   c\<lparr>iters := (iters c)[pos c := it']\<rparr>)
            else if st' = AKU_ENO_DATA \<or> st' = AKU_SUCCESS then
              chain_loop rd (c\<lparr>iters := (iters c)[pos c := it'], pos := Suc (pos c)\<rparr>)
                (n - length chunk) st' (acc @ map (mk_sample (ids c ! pos c)) chunk)
            else
              Inr ((st', acc @ map (mk_sample (ids c ! pos c)) chunk),
                   c\<lparr>iters := (iters c)[pos c := it'], pos := Suc (pos c)\<rparr>))"
  by (subst chain_loop.simps) (simp add: Let_def split: prod.splits)

lemma chain_loop_status:
  "pos c < length (iters c) \<Longrightarrow> chain_loop rd c n st acc = chain_loop rd c n st2 acc"
  by (simp add: chain_loop_unfold)

lemma chain_loop_prefix:
  "chain_loop rd c n st (a @ acc) =
     (case chain_loop rd c n st acc of
        Inl f \<Rightarrow> Inl f
      | Inr ((s, out), c') \<Rightarrow> Inr ((s, a @ out), c'))"
proof (induction "length (iters c) - pos c" arbitrary: c n st acc)
  case 0
  then show ?case by (simp add: chain_loop_end)
next
  case (Suc k)
  then have lt: "pos c < length (iters c)" by simp
  obtain st' chunk it' where r: "rd (iters c ! pos c) n = ((st', chunk), it')"
    by (metis prod.exhaust)
  let ?c2 = "c\<lparr>iters := (iters c)[pos c := it'], pos := Suc (pos c)\<rparr>"
  have k: "k = length (iters ?c2) - pos ?c2" using Suc.hyps(2) by simp
  show ?case
    by (simp add: chain_loop_unfold [OF lt] r Suc.hyps(1) [OF k])
qed

lemma chain_loop_frame:
  "chain_loop rd c n st acc = Inr (r, c') \<Longrightarrow>
     pos c \<le> pos c' \<and> ids c' = ids c \<and> length (iters c') = length (iters c) \<and>
     (\<forall>j. j < pos c \<or> pos c' < j \<longrightarrow> iters c' ! j = iters c ! j)"
proof (induction "length (iters c) - pos c" arbitrary: c n st acc)
  case 0
  then show ?case by (simp add: chain_loop_end)
next
  case (Suc k)
  then have lt: "pos c < length (iters c)" by simp
  obtain st' chunk it' where r: "rd (iters c ! pos c) n = ((st', chunk), it')"
    by (metis prod.exhaust)
  let ?c2 = "c\<lparr>iters := (iters c)[pos c := it'], pos := Suc (pos c)\<rparr>"
  have k: "k = length (iters ?c2) - pos ?c2" using Suc.hyps(2) by simp
  note IH = Suc.hyps(1) [OF k]
  from Suc.prems show ?case
    using IH
    by (auto simp: chain_loop_unfold [OF lt] r split: if_splits dest!: IH)
qed

section \<open>Lemmas on the consumer's history\<close>

lemma set_error_simps [simp]:
  "respond (set_error q e) = respond q"
  "history (set_error q e) = history q @ [SetError e]"
  by (simp_all add: set_error_def)

lemma put_simps [simp]:
  "fst (put q s) = respond q (history q) s"
  "respond (snd (put q s)) = respond q"
  "history (snd (put q s)) = history q @ [Put s]"
  by (simp_all add: put_def)

lemma delivered_append [simp]: "delivered (xs @ ys) = delivered xs @ delivered ys"
  by (induction xs rule: delivered.induct) simp_all

lemma accepted_append:
  "accepted r h (xs @ ys) = (accepted r h xs \<and> accepted r (h @ xs) ys)"
  by (induction r h xs rule: accepted.induct) simp_all

lemma stopped_append:
  "accepted r h xs \<Longrightarrow> stopped r h (xs @ ys) = stopped r (h @ xs) ys"
  by (induction r h xs rule: accepted.induct) simp_all

lemma accepted_refused:
  "accepted r h (pre @ Put s # post) \<Longrightarrow> r (h @ pre) s"
  by (simp add: accepted_append)

lemma stopped_refused:
  "stopped r h (pre @ Put s # post) \<Longrightarrow> \<not> r (h @ pre) s \<Longrightarrow> post = []"
  by (induction r h pre rule: accepted.induct) (simp_all split: if_splits)

lemma open_iters_history:
  "open_iters search cs b e pids its q = (its', q') \<Longrightarrow>
     respond q' = respond q \<and>
     (\<exists>n. history q' = history q @ replicate n (SetError AKU_ENOT_FOUND))"
proof (induction pids arbitrary: its q)
  case Nil
  then show ?case by simp
next
  case (Cons pid rest)
  show ?case
  proof (cases "columns cs pid")
    case None
    with Cons.prems
    have "open_iters search cs b e rest its (set_error q AKU_ENOT_FOUND) = (its', q')"
      by simp
    from Cons.IH [OF this] obtain n where
      "respond q' = respond q"
      "history q' = (history q @ [SetError AKU_ENOT_FOUND]) @ replicate n (SetError AKU_ENOT_FOUND)"
      by auto
    then have "respond q' = respond q \<and>
        history q' = history q @ replicate (Suc n) (SetError AKU_ENOT_FOUND)"
      by simp
    then show ?thesis by blast
  next
    case (Some h)
    with Cons.prems
    have "open_iters search cs b e rest (its @ [search (trees cs h) b e]) q = (its', q')"
      by simp
    from Cons.IH [OF this] show ?thesis .
  qed
qed

lemma delivered_replicate_error [simp]: "delivered (replicate n (SetError e)) = []"
  by (induction n) simp_all

lemma accepted_replicate_error [simp]: "accepted r h (replicate n (SetError e))"
  by (induction n arbitrary: h) simp_all

lemma check_group_by_result:
  "check_group_by m dest q =
     (if \<exists>s \<in> set dest. m (paramid s) = None then (True, set_error q AKU_EBAD_DATA)
      else (False, q))"
  by (induction dest) (auto split: option.splits)

lemma deliver_inv:
  "deliver dest q = (ret, q') \<Longrightarrow>
     respond q' = respond q \<and>
     (\<exists>evs. history q' = history q @ evs \<and>
        (if ret then stopped (respond q) (history q) evs
         else accepted (respond q) (history q) evs))"
proof (induction dest arbitrary: q)
  case Nil
  then show ?case by simp
next
  case (Cons s rest)
  obtain ok q1 where p: "put q s = (ok, q1)" by (cases "put q s")
  then have ok: "ok = respond q (history q) s" and r1: "respond q1 = respond q"
    and h1: "history q1 = history q @ [Put s]"
    using put_simps [of q s] by simp_all
  show ?case
  proof (cases ok)
    case False
    with Cons.prems p have "ret" "q' = q1" by simp_all
    with False ok r1 h1 show ?thesis by simp
  next
    case True
    with Cons.prems p have "deliver rest q1 = (ret, q')" by simp
    from Cons.IH [OF this] obtain evs where
      "respond q' = respond q1" "history q' = history q1 @ evs"
      "if ret then stopped (respond q1) (history q1) evs
       else accepted (respond q1) (history q1) evs"
      by blast
    with True ok r1 h1 have "respond q' = respond q \<and> history q' = history q @ (Put s # evs) \<and>
        (if ret then stopped (respond q) (history q) (Put s # evs)
         else accepted (respond q) (history q) (Put s # evs))"
      by (auto split: if_splits)
    then show ?thesis by blast
  qed
qed


lemma query_loop_no_put:
  "group_by_enabled req \<Longrightarrow>
     delivered (history (snd (query_loop rd req iter q fuel))) = delivered (history q)"
proof (induction fuel arbitrary: iter q)
  case 0
  then show ?case by simp
next
  case (Suc fuel)
  then show ?case
    by (auto simp: check_group_by_result split: option.splits sum.splits prod.splits bool.splits)
qed

lemma query_loop_inv:
  "\<not> group_by_enabled req \<Longrightarrow> query_loop rd req iter q fuel = (out, q') \<Longrightarrow>
     respond q' = respond q \<and>
     (\<exists>evs. history q' = history q @ evs \<and>
        (accepted (respond q) (history q) evs \<or>
         out = Returned \<and> stopped (respond q) (history q) evs))"
proof (induction fuel arbitrary: iter q)
  case 0
  then show ?case by simp
next
  case (Suc fuel)
  show ?case
  proof (cases iter)
    case None
    with Suc.prems show ?thesis by simp
  next
    case (Some c)
    show ?thesis
    proof (cases "ChainIterator_read rd c dest_size")
      case (Inl f)
      with Some Suc.prems show ?thesis by simp
    next
      case (Inr x)
      then obtain status dest c' where
        rd: "ChainIterator_read rd c dest_size = Inr ((status, dest), c')"
        by (metis prod.exhaust)
      show ?thesis
      proof (cases "status \<noteq> AKU_SUCCESS \<and> status \<noteq> AKU_ENO_DATA")
        case True
        with Some rd Suc.prems have "out = Returned" "q' = set_error q status" by auto
        then have "respond q' = respond q \<and> history q' = history q @ [SetError status] \<and>
            accepted (respond q) (history q) [SetError status]"
          by simp
        then show ?thesis by blast
      next
        case False
        obtain ret q1 where d: "deliver dest q = (ret, q1)" by (cases "deliver dest q")
        from deliver_inv [OF d] obtain evs1 where
          r1: "respond q1 = respond q" and h1: "history q1 = history q @ evs1"
          and i1: "if ret then stopped (respond q) (history q) evs1
                   else accepted (respond q) (history q) evs1"
          by blast
        show ?thesis
        proof (cases "ret \<or> status \<noteq> AKU_SUCCESS")
          case True
          with Some rd False d Suc.prems have "out = Returned" "q' = q1"
            by (auto split: if_splits bool.splits)
          with r1 h1 i1 show ?thesis by (auto split: if_splits)
        next
          case False
          then have nr: "\<not> ret" and ok: "status = AKU_SUCCESS" by simp_all
          with Some rd d Suc.prems
          have "query_loop rd req (Some c') q1 fuel = (out, q')" by simp
          from Suc.IH [OF Suc.prems(1) this] obtain evs2 where
            r2: "respond q' = respond q1" and h2: "history q' = history q1 @ evs2"
            and i2: "accepted (respond q1) (history q1) evs2 \<or>
                     out = Returned \<and> stopped (respond q1) (history q1) evs2"
            by blast
          from nr i1 have a1: "accepted (respond q) (history q) evs1" by simp
          from r1 r2 h1 h2 i2 a1
          have "respond q' = respond q \<and> history q' = history q @ (evs1 @ evs2) \<and>
              (accepted (respond q) (history q) (evs1 @ evs2) \<or>
               out = Returned \<and> stopped (respond q) (history q) (evs1 @ evs2))"
            by (auto simp: accepted_append stopped_append)
          then show ?thesis by blast
        qed
      qed
    qed
  qed
qed

lemma open_iters_eq:
  "open_iters search cs b e pids its q =
     (its @ hit_iters search cs b e pids,
      foldl set_error q (replicate (length (missing_ids cs pids)) AKU_ENOT_FOUND))"
  by (induction pids arbitrary: its q) (simp_all add: missing_ids_def split: option.splits)

lemma hit_iters_aligned:
  "\<forall>pid \<in> set pids. columns cs pid \<noteq> None \<Longrightarrow>
     missing_ids cs pids = [] \<and>
     length (hit_iters search cs b e pids) = length pids \<and>
     (\<forall>i < length pids. \<exists>h. columns cs (pids ! i) = Some h \<and>
        hit_iters search cs b e pids ! i = search (trees cs h) b e)"
proof (induction pids)
  case Nil
  then show ?case by (simp add: missing_ids_def)
next
  case (Cons pid rest)
  then obtain h where h: "columns cs pid = Some h" by auto
  from Cons have IH: "missing_ids cs rest = [] \<and>
     length (hit_iters search cs b e rest) = length rest \<and>
     (\<forall>i < length rest. \<exists>h. columns cs (rest ! i) = Some h \<and>
        hit_iters search cs b e rest ! i = search (trees cs h) b e)"
    by simp
  have "\<forall>i < length (pid # rest). \<exists>h. columns cs ((pid # rest) ! i) = Some h \<and>
        hit_iters search cs b e (pid # rest) ! i = search (trees cs h) b e"
  proof (intro allI impI)
    fix i
    assume "i < length (pid # rest)"
    then show "\<exists>h. columns cs ((pid # rest) ! i) = Some h \<and>
        hit_iters search cs b e (pid # rest) ! i = search (trees cs h) b e"
      using h IH by (cases i) simp_all
  qed
  with h IH show ?case by (simp add: missing_ids_def)
qed

lemma query_loop_validate_and_drop:
  "group_by_enabled req \<Longrightarrow>
     query_loop rd req (Some c) q fuel =
       validate_and_drop rd (group_by_transient_map req) c q fuel"
proof (induction fuel arbitrary: c q)
  case 0
  then show ?case by simp
next
  case (Suc fuel)
  then show ?case
    by (auto simp: check_group_by_result split: sum.splits prod.splits)
qed

section \<open>Lemmas on concurrent creators\<close>
















section \<open>Writes\<close>

text \<open>
  C7. \<^verbatim>\<open>ColumnStore::write\<close> returns \<^verbatim>\<open>FAIL_BAD_ID\<close> and changes nothing when the
  sample's id is not in the registry. When the id is there, it appends to the tree behind
  that id, returns what the append returned, and \<^verbatim>\<open>*rescue_points\<close> becomes the tree's
  roots after the append exactly when the append returned \<^verbatim>\<open>OK_FLUSH_NEEDED\<close>; otherwise
  \<^verbatim>\<open>*rescue_points\<close> stays as it was.
\<close>

theorem ColumnStore_write_result:
  "case ColumnStore_write tree_append get_roots cs sample rescue_points cache_or_null of
     (res, cs', rescue', cache') \<Rightarrow>
       (columns cs (paramid sample) = None \<longrightarrow>
          res = FAIL_BAD_ID \<and> cs' = cs \<and> rescue' = rescue_points \<and> cache' = cache_or_null) \<and>
       (\<forall>h. columns cs (paramid sample) = Some h \<longrightarrow>
          (case tree_append (trees cs h) (timestamp sample) (payload_float64 sample) of
             (r, t') \<Rightarrow>
               res = r \<and> columns cs' = columns cs \<and> trees cs' = (trees cs)(h := t') \<and>
               rescue' = (if r = OK_FLUSH_NEEDED then get_roots t' else rescue_points)))"
  by (auto simp: ColumnStore_write_def split: option.splits prod.splits)

theorem ColumnStore_write_result_witness:
  "columns demo_store (paramid (mk_sample 1 (20, 9))) = Some 0 \<and>
   columns demo_store (paramid (mk_sample 2 (30, 9))) = Some 1 \<and>
   columns demo_store (paramid (mk_sample 99 (20, 9))) = None \<and>
   (case ColumnStore_write demo_append demo_get_roots demo_store (mk_sample 1 (20, 9)) [5] None of
      (res, cs', rescue', cache') \<Rightarrow>
        res = OK_FLUSH_NEEDED \<and> rescue' = [1] \<and> trees cs' 0 = [(10, 7), (20, 9)]) \<and>
   (case ColumnStore_write demo_append demo_get_roots demo_store (mk_sample 2 (30, 9)) [5] None of
      (res, cs', rescue', cache') \<Rightarrow>
        res = OK \<and> rescue' = [5] \<and> trees cs' 1 = [(10, 8), (20, 9), (30, 9)]) \<and>
   (case ColumnStore_write demo_append demo_get_roots demo_store (mk_sample 99 (20, 9)) [5] None of
      (res, cs', rescue', cache') \<Rightarrow> res = FAIL_BAD_ID \<and> rescue' = [5] \<and> cs' = demo_store)"
  using ColumnStore_write_result [where tree_append = demo_append and get_roots = demo_get_roots
      and cs = demo_store and sample = "mk_sample 1 (20, 9)" and rescue_points = "[5]"
      and cache_or_null = None]
    ColumnStore_write_result [where tree_append = demo_append and get_roots = demo_get_roots
      and cs = demo_store and sample = "mk_sample 2 (30, 9)" and rescue_points = "[5]"
      and cache_or_null = None]
    ColumnStore_write_result [where tree_append = demo_append and get_roots = demo_get_roots
      and cs = demo_store and sample = "mk_sample 99 (20, 9)" and rescue_points = "[5]"
      and cache_or_null = None]
  by (simp add: mk_sample_def demo_append_def demo_get_roots_def demo_store_def
        split: prod.splits)

text \<open>
  C3. When the sample's id is in the session cache, \<^verbatim>\<open>CStoreSession::write\<close> leaves
  \<^verbatim>\<open>*rescue_points\<close> (and the cache) as they were, whatever the append returns; for a
  FLOAT sample it returns what the append on the cached tree returned, so also
  \<^verbatim>\<open>OK_FLUSH_NEEDED\<close>. Rescue points can therefore change only on a cache miss.
\<close>

theorem CStoreSession_write_cached:
  assumes "cache (paramid sample) = Some h"
  shows "case CStoreSession_write tree_append get_roots cs cache sample rescue_points of
           (res, cs', rescue', cache') \<Rightarrow>
             rescue' = rescue_points \<and> cache' = cache \<and>
             (payload_type sample = AKU_PAYLOAD_FLOAT \<longrightarrow>
                res = fst (tree_append (trees cs h) (timestamp sample) (payload_float64 sample)))"
  using assms by (simp add: CStoreSession_write_def split: prod.splits)

theorem CStoreSession_write_cached_witness:
  "[1 \<mapsto> 0] (paramid (mk_sample 1 (20, 9))) = Some (0::nat) \<and>
   payload_type (mk_sample 1 (20, 9)) = AKU_PAYLOAD_FLOAT \<and>
   fst (demo_append (trees demo_store 0) 20 9) = OK_FLUSH_NEEDED \<and>
   demo_get_roots (snd (demo_append (trees demo_store 0) 20 9)) = [1] \<and>
   (case CStoreSession_write demo_append demo_get_roots demo_store [1 \<mapsto> 0]
           (mk_sample 1 (20, 9)) [] of
      (res, cs', rescue', cache') \<Rightarrow> rescue' = [] \<and> res = OK_FLUSH_NEEDED)"
  using CStoreSession_write_cached [where cache = "[1 \<mapsto> 0]" and sample = "mk_sample 1 (20, 9)"
      and h = 0 and tree_append = demo_append and get_roots = demo_get_roots
      and cs = demo_store and rescue_points = "[]"]
  by (simp add: mk_sample_def demo_append_def demo_get_roots_def demo_store_def
        split: prod.splits)

text \<open>
  C10. For a sample whose payload tag is not FLOAT, \<^verbatim>\<open>CStoreSession::write\<close> returns
  \<^verbatim>\<open>FAIL_BAD_VALUE\<close> and the registry with all its trees, \<^verbatim>\<open>*rescue_points\<close> and the
  session cache are what they were; the result depends neither on the append operation
  nor on the cache.
\<close>

theorem CStoreSession_write_bad_value:
  assumes "payload_type sample \<noteq> AKU_PAYLOAD_FLOAT"
  shows "CStoreSession_write tree_append get_roots cs cache sample rescue_points =
           (FAIL_BAD_VALUE, cs, rescue_points, cache)"
  using assms by (simp add: CStoreSession_write_def)

theorem CStoreSession_write_bad_value_witness:
  "payload_type (mk_sample 1 (20, 9)\<lparr>payload_type := AKU_PAYLOAD_OTHER 1\<rparr>) \<noteq> AKU_PAYLOAD_FLOAT \<and>
   CStoreSession_write demo_append demo_get_roots demo_store [1 \<mapsto> 0]
       (mk_sample 1 (20, 9)\<lparr>payload_type := AKU_PAYLOAD_OTHER 1\<rparr>) [5] =
     (FAIL_BAD_VALUE, demo_store, [5], [1 \<mapsto> 0])"
  using CStoreSession_write_bad_value [where sample = "mk_sample 1 (20, 9)\<lparr>payload_type := AKU_PAYLOAD_OTHER 1\<rparr>"
      and tree_append = demo_append and get_roots = demo_get_roots and cs = demo_store
      and cache = "[1 \<mapsto> 0]" and rescue_points = "[5]"]
  by (simp add: mk_sample_def)

section \<open>Creating a column\<close>



section \<open>Composition of the inner iterators\<close>

text \<open>
  C4, as the spec states it, fails: \<^verbatim>\<open>pos_\<close> is incremented before the status is looked
  at. Here the first inner iterator answers \<^verbatim>\<open>AKU_SUCCESS\<close> with one pair for a room of
  four; \<^verbatim>\<open>ChainIterator::read\<close> moves on to the second iterator in the same call and
  emits its pair, although the first iterator never returned \<^verbatim>\<open>AKU_ENO_DATA\<close>.
\<close>

theorem ChainIterator_read_advances_on_success:
  "fst (fst (demo_read [(AKU_SUCCESS, [(10, 7)])] 4)) = AKU_SUCCESS \<and>
   ChainIterator_read demo_read
     \<lparr>iters = [[(AKU_SUCCESS, [(10, 7)])], [(AKU_ENO_DATA, [(20, 8)])]], ids = [1, 2], pos = 0\<rparr> 4 =
   Inr ((AKU_ENO_DATA, [mk_sample 1 (10, 7), mk_sample 2 (20, 8)]),
        \<lparr>iters = [[], []], ids = [1, 2], pos = 2\<rparr>)"
  by (simp add: ChainIterator_read_def chain_loop_unfold chain_loop_end)

text \<open>
  C4, amended. \<^verbatim>\<open>ChainIterator::read\<close> reads the inner iterator at \<^verbatim>\<open>pos_\<close> first
  and tags what it hands over with the id at \<^verbatim>\<open>pos_\<close>. If that read fills the room
  offered, the call returns the inner status and stays at this iterator. Otherwise it steps
  to the next iterator, whatever the status: after \<^verbatim>\<open>AKU_ENO_DATA\<close> and after
  \<^verbatim>\<open>AKU_SUCCESS\<close> it goes on with the next iterator in the same call (its output
  following what was produced so far), and after any other status it stops and returns that
  status with what was produced. A call never moves backwards, leaves the ids alone, and
  leaves every iterator before the old position and after the new one as it was.
\<close>

theorem ChainIterator_read_order:
  "(pos c < length (iters c) \<and> pos c < length (ids c) \<and>
    rd (iters c ! pos c) n = ((st, chunk), it') \<and> length chunk \<le> n \<longrightarrow>
      ChainIterator_read rd c n =
        (let tagged = map (mk_sample (ids c ! pos c)) chunk;
             c1 = c\<lparr>iters := (iters c)[pos c := it']\<rparr>;
             c2 = c1\<lparr>pos := Suc (pos c)\<rparr>
         in if length chunk = n then Inr ((st, tagged), c1)
            else if st \<noteq> AKU_ENO_DATA \<and> st \<noteq> AKU_SUCCESS then Inr ((st, tagged), c2)
            else if Suc (pos c) < length (iters c) then
              (case ChainIterator_read rd c2 (n - length chunk) of
                 Inl f \<Rightarrow> Inl f
               | Inr ((s, out), c') \<Rightarrow> Inr ((s, tagged @ out), c'))
            else Inr ((st, tagged), c2))) \<and>
   (\<forall>r c'. ChainIterator_read rd c n = Inr (r, c') \<longrightarrow>
      pos c \<le> pos c' \<and> ids c' = ids c \<and> length (iters c') = length (iters c) \<and>
      (\<forall>j. j < pos c \<or> pos c' < j \<longrightarrow> iters c' ! j = iters c ! j))"
proof (intro conjI impI allI)
  assume a: "pos c < length (iters c) \<and> pos c < length (ids c) \<and>
    rd (iters c ! pos c) n = ((st, chunk), it') \<and> length chunk \<le> n"
  let ?tagged = "map (mk_sample (ids c ! pos c)) chunk"
  let ?c2 = "c\<lparr>iters := (iters c)[pos c := it'], pos := Suc (pos c)\<rparr>"
  have pre: "chain_loop rd ?c2 (n - length chunk) st ?tagged =
      (case chain_loop rd ?c2 (n - length chunk) st [] of
         Inl f \<Rightarrow> Inl f
       | Inr ((s, out), c') \<Rightarrow> Inr ((s, ?tagged @ out), c'))"
    using chain_loop_prefix [of rd ?c2 "n - length chunk" st ?tagged "[]"] by simp
  have st: "Suc (pos c) < length (iters c) \<Longrightarrow>
      chain_loop rd ?c2 (n - length chunk) st [] =
      chain_loop rd ?c2 (n - length chunk) AKU_ENO_DATA []"
    by (rule chain_loop_status) simp
  have fin: "\<not> Suc (pos c) < length (iters c) \<Longrightarrow>
      chain_loop rd ?c2 (n - length chunk) st ?tagged = Inr ((st, ?tagged), ?c2)"
    by (rule chain_loop_end) simp
  from a show "ChainIterator_read rd c n =
        (let tagged = map (mk_sample (ids c ! pos c)) chunk;
             c1 = c\<lparr>iters := (iters c)[pos c := it']\<rparr>;
             c2 = c1\<lparr>pos := Suc (pos c)\<rparr>
         in if length chunk = n then Inr ((st, tagged), c1)
            else if st \<noteq> AKU_ENO_DATA \<and> st \<noteq> AKU_SUCCESS then Inr ((st, tagged), c2)
            else if Suc (pos c) < length (iters c) then
              (case ChainIterator_read rd c2 (n - length chunk) of
                 Inl f \<Rightarrow> Inl f
               | Inr ((s, out), c') \<Rightarrow> Inr ((s, tagged @ out), c'))
            else Inr ((st, tagged), c2))"
    using pre st fin
    by (auto simp: ChainIterator_read_def chain_loop_unfold Let_def)
next
  fix r c' j
  assume "ChainIterator_read rd c n = Inr (r, c')"
  then have f: "pos c \<le> pos c' \<and> ids c' = ids c \<and> length (iters c') = length (iters c) \<and>
     (\<forall>j. j < pos c \<or> pos c' < j \<longrightarrow> iters c' ! j = iters c ! j)"
    unfolding ChainIterator_read_def by (rule chain_loop_frame)
  from f show "pos c \<le> pos c'" by simp
  from f show "ids c' = ids c" by simp
  from f show "length (iters c') = length (iters c)" by simp
  assume "j < pos c \<or> pos c' < j"
  with f show "iters c' ! j = iters c ! j" by blast
qed

theorem ChainIterator_read_order_witness:
  "pos \<lparr>iters = [[(AKU_SUCCESS, [(10, 7)])], [(AKU_EIO, [(20, 8)])]], ids = [1, 2], pos = 0\<rparr>
     < length (iters \<lparr>iters = [[(AKU_SUCCESS, [(10, 7)])], [(AKU_EIO, [(20, 8)])]], ids = [1, 2], pos = 0\<rparr>) \<and>
   demo_read [(AKU_SUCCESS, [(10, 7)])] 4 = ((AKU_SUCCESS, [(10, 7)]), []) \<and>
   length [(10 :: aku_Timestamp, 7 :: float64)] \<le> 4 \<and>
   ChainIterator_read demo_read
       \<lparr>iters = [[(AKU_SUCCESS, [(10, 7)])], [(AKU_EIO, [(20, 8)])]], ids = [1, 2], pos = 0\<rparr> 4 =
     (case ChainIterator_read demo_read
             \<lparr>iters = [[], [(AKU_EIO, [(20, 8)])]], ids = [1, 2], pos = Suc 0\<rparr> 3 of
        Inl f \<Rightarrow> Inl f
      | Inr ((s, out), c') \<Rightarrow> Inr ((s, mk_sample 1 (10, 7) # out), c')) \<and>
   ChainIterator_read demo_read
       \<lparr>iters = [[], [(AKU_EIO, [(20, 8)])]], ids = [1, 2], pos = Suc 0\<rparr> 3 =
     Inr ((AKU_EIO, [mk_sample 2 (20, 8)]), \<lparr>iters = [[], []], ids = [1, 2], pos = 2\<rparr>)"
  using ChainIterator_read_order [where rd = demo_read
      and c = "\<lparr>iters = [[(AKU_SUCCESS, [(10, 7)])], [(AKU_EIO, [(20, 8)])]], ids = [1, 2], pos = 0\<rparr>"
      and n = 4 and st = AKU_SUCCESS and chunk = "[(10, 7)]" and it' = "[]"]
    ChainIterator_read_order [where rd = demo_read
      and c = "\<lparr>iters = [[], [(AKU_EIO, [(20, 8)])]], ids = [1, 2], pos = Suc 0\<rparr>"
      and n = 3 and st = AKU_EIO and chunk = "[(20, 8)]" and it' = "[]"]
  by (simp add: numeral_2_eq_2)

text \<open>
  C5. The claim holds of the intended behaviour, not of the code: when an inner iterator
  answers \<^verbatim>\<open>AKU_ENO_DATA\<close> while filling the room offered exactly, the
  \<^verbatim>\<open>size == 0\<close> exit is taken before that status is handled, and
  \<^verbatim>\<open>ChainIterator::read\<close> returns \<^verbatim>\<open>AKU_ENO_DATA\<close> while a later iterator has not
  been read at all. Here the room is one sample; the second iterator still holds its pair
  and \<^verbatim>\<open>pos_\<close> is still 0.
\<close>

theorem ChainIterator_read_no_data_before_drained:
  "ChainIterator_read demo_read
     \<lparr>iters = [[(AKU_ENO_DATA, [(10, 7)])], [(AKU_ENO_DATA, [(20, 8)])]], ids = [1, 2], pos = 0\<rparr> 1 =
   Inr ((AKU_ENO_DATA, [mk_sample 1 (10, 7)]),
        \<lparr>iters = [[], [(AKU_ENO_DATA, [(20, 8)])]], ids = [1, 2], pos = 0\<rparr>)"
  by (simp add: ChainIterator_read_def chain_loop_unfold chain_loop_end)

section \<open>The query driver\<close>

text \<open>
  C1. The claim holds of the intended behaviour, not of the code: \<^verbatim>\<open>query\<close> skips
  the iterator of a missing id but hands the unfiltered \<^verbatim>\<open>req.select.ids\<close> to the
  chain, so ids and iterators are out of step after the first miss. For the ids 1, 99, 2
  with 99 missing, \<^verbatim>\<open>AKU_ENOT_FOUND\<close> is reported and the sample of series 1 is
  delivered with id 1, but the two samples of series 2 are delivered with id 99.
\<close>

theorem ColumnStore_query_unknown_id_mistags:
  "ColumnStore_query demo_search demo_read demo_store (demo_request [1, 99, 2] SERIES False)
       (demo_consumer 10) (Suc 0) =
     (Returned,
      \<lparr>respond = demo_respond 10,
       history = [SetError AKU_ENOT_FOUND, Put (mk_sample 1 (10, 7)),
                  Put (mk_sample 99 (10, 8)), Put (mk_sample 99 (20, 9))]\<rparr>)"
  by (simp add: ColumnStore_query_def demo_request_def demo_store_def demo_search_def
      demo_consumer_def set_error_def ChainIterator_new_def ChainIterator_read_def
      chain_loop_unfold chain_loop_end dest_size_def in_range_def put_def demo_respond_def)

text \<open>
  C2. The claim holds of the intended behaviour, not of the code: for a request ordered
  by time, \<^verbatim>\<open>query\<close> reports \<^verbatim>\<open>AKU_ENOT_IMPLEMENTED\<close> (after one
  \<^verbatim>\<open>AKU_ENOT_FOUND\<close> per missing id) but does not return; it enters the loop and calls
  \<^verbatim>\<open>read\<close> through the \<^verbatim>\<open>unique_ptr\<close> that was never set.
\<close>

theorem ColumnStore_query_order_by_time:
  "ColumnStore_query search rd cs (req\<lparr>order_by := TIME\<rparr>) q (Suc fuel) =
     (Fault NullDereference,
      set_error (snd (open_iters search cs (select_begin req) (select_end req) (select_ids req) [] q))
        AKU_ENOT_IMPLEMENTED)"
  by (simp add: ColumnStore_query_def split: prod.splits)

text \<open>
  C8, as the spec states it, fails in two ways. A batch that comes with a read error is
  not examined: the error is reported and the driver returns, here \<^verbatim>\<open>AKU_EIO\<close> for a
  batch whose sample carries id 2, not a key of the mapping. And the id examined is the id
  the chain wrote into the sample: for the ids 99, 1 with 99 missing and the mapping
  defined on 99 only, the sample of series 1 carries 99 and passes, so no
  \<^verbatim>\<open>AKU_EBAD_DATA\<close> is reported although 1 is not a key.
\<close>

theorem query_group_by_unvalidated:
  "ChainIterator_read demo_read (ChainIterator_new [2] [[(AKU_EIO, [(10, 7)])]]) dest_size =
     Inr ((AKU_EIO, [mk_sample 2 (10, 7)]), \<lparr>iters = [[]], ids = [2], pos = Suc 0\<rparr>) \<and>
   group_by_transient_map (demo_request [2] SERIES True) (paramid (mk_sample 2 (10, 7))) = None \<and>
   ColumnStore_query demo_script_search demo_read demo_error_store
       (demo_request [2] SERIES True) (demo_consumer 10) (Suc 0) =
     (Returned, \<lparr>respond = demo_respond 10, history = [SetError AKU_EIO]\<rparr>) \<and>
   columns demo_store 99 = None \<and> columns demo_store 1 = Some 0 \<and>
   demo_search (trees demo_store 0) 0 1000 = [(AKU_ENO_DATA, [(10, 7)])] \<and>
   [99 \<mapsto> 99 :: aku_ParamId] (1 :: aku_ParamId) = None \<and>
   ColumnStore_query demo_search demo_read demo_store
       ((demo_request [99, 1] SERIES True)\<lparr>group_by_transient_map := [99 \<mapsto> 99]\<rparr>)
       (demo_consumer 10) (Suc 0) =
     (Returned, \<lparr>respond = demo_respond 10, history = [SetError AKU_ENOT_FOUND]\<rparr>)"
  by (simp add: ColumnStore_query_def demo_request_def demo_store_def demo_search_def
      demo_script_search_def demo_error_store_def
      demo_consumer_def set_error_def ChainIterator_new_def ChainIterator_read_def
      chain_loop_unfold chain_loop_end dest_size_def in_range_def mk_sample_def)

text \<open>
  C8, amended. With group-by enabled a query never calls \<^verbatim>\<open>put\<close>, however it ends.
  When the request is ordered by series, the query does what the spec's validating driver
  does on the chain the query builds (from \<^verbatim>\<open>req.select.ids\<close> and the iterators
  opened), after one \<^verbatim>\<open>AKU_ENOT_FOUND\<close> per missing id: it reads batch after batch; a read
  error other than \<^verbatim>\<open>AKU_ENO_DATA\<close> is reported and ends the query; otherwise the first
  batch holding a sample whose id (the one it carries) is not a key of
  \<^verbatim>\<open>group_by.transient_map\<close> makes the driver report \<^verbatim>\<open>AKU_EBAD_DATA\<close> and return;
  a batch of known ids is dropped. When every selected id is in the registry, nothing is
  missing and the iterator at each position is the one opened on the tree of the id at
  that position, so the id a sample carries is the id of its series.
\<close>

theorem query_group_by_validate_and_drop:
  assumes "group_by_enabled req"
  shows "delivered (history (snd (ColumnStore_query search rd cs req q fuel))) =
           delivered (history q) \<and>
         (order_by req = SERIES \<longrightarrow>
            ColumnStore_query search rd cs req q fuel =
              validate_and_drop rd (group_by_transient_map req)
                (ChainIterator_new (select_ids req)
                   (hit_iters search cs (select_begin req) (select_end req) (select_ids req)))
                (foldl set_error q
                   (replicate (length (missing_ids cs (select_ids req))) AKU_ENOT_FOUND))
                fuel) \<and>
         ((\<forall>pid \<in> set (select_ids req). columns cs pid \<noteq> None) \<longrightarrow>
            missing_ids cs (select_ids req) = [] \<and>
            length (hit_iters search cs (select_begin req) (select_end req) (select_ids req)) =
              length (select_ids req) \<and>
            (\<forall>i < length (select_ids req). \<exists>h.
               columns cs (select_ids req ! i) = Some h \<and>
               hit_iters search cs (select_begin req) (select_end req) (select_ids req) ! i =
                 search (trees cs h) (select_begin req) (select_end req)))"
proof (intro conjI impI)
  obtain its q1 where o: "open_iters search cs (select_begin req) (select_end req)
      (select_ids req) [] q = (its, q1)"
    by (metis prod.exhaust)
  from open_iters_history [OF o] have d1: "delivered (history q1) = delivered (history q)"
    by auto
  show "delivered (history (snd (ColumnStore_query search rd cs req q fuel))) =
      delivered (history q)"
    using d1 by (simp add: ColumnStore_query_def o query_loop_no_put [OF assms])
next
  assume "order_by req = SERIES"
  then show "ColumnStore_query search rd cs req q fuel =
      validate_and_drop rd (group_by_transient_map req)
        (ChainIterator_new (select_ids req)
           (hit_iters search cs (select_begin req) (select_end req) (select_ids req)))
        (foldl set_error q
           (replicate (length (missing_ids cs (select_ids req))) AKU_ENOT_FOUND))
        fuel"
    by (simp add: ColumnStore_query_def open_iters_eq query_loop_validate_and_drop [OF assms])
next
  assume a: "\<forall>pid \<in> set (select_ids req). columns cs pid \<noteq> None"
  from hit_iters_aligned [OF a]
  show "missing_ids cs (select_ids req) = []"
    and "length (hit_iters search cs (select_begin req) (select_end req) (select_ids req)) =
              length (select_ids req)"
    and "\<forall>i < length (select_ids req). \<exists>h.
               columns cs (select_ids req ! i) = Some h \<and>
               hit_iters search cs (select_begin req) (select_end req) (select_ids req) ! i =
                 search (trees cs h) (select_begin req) (select_end req)"
    by blast+
qed

theorem query_group_by_validate_and_drop_witness:
  "group_by_enabled (demo_request [1, 2] SERIES True) \<and>
   order_by (demo_request [1, 2] SERIES True) = SERIES \<and>
   select_ids (demo_request [1, 2] SERIES True) = [1, 2] \<and>
   columns demo_store 1 \<noteq> None \<and> columns demo_store 2 \<noteq> None \<and>
   hit_iters demo_search demo_store 0 1000 [1, 2] =
     [[(AKU_ENO_DATA, [(10, 7)])], [(AKU_ENO_DATA, [(10, 8), (20, 9)])]] \<and>
   group_by_transient_map (demo_request [1, 2] SERIES True) (paramid (mk_sample 2 (10, 8))) = None \<and>
   ColumnStore_query demo_search demo_read demo_store (demo_request [1, 2] SERIES True)
       (demo_consumer 10) (Suc 0) =
     (Returned, \<lparr>respond = demo_respond 10, history = [SetError AKU_EBAD_DATA]\<rparr>)"
proof -
  have g: "group_by_enabled (demo_request [1, 2] SERIES True)"
    by (simp add: demo_request_def)
  have ord: "order_by (demo_request [1, 2] SERIES True) = SERIES"
    by (simp add: demo_request_def)
  have ap: "\<forall>pid \<in> set (select_ids (demo_request [1, 2] SERIES True)).
      columns demo_store pid \<noteq> None"
    by (simp add: demo_request_def demo_store_def)
  have hi: "hit_iters demo_search demo_store 0 1000 [1, 2] =
     [[(AKU_ENO_DATA, [(10, 7)])], [(AKU_ENO_DATA, [(10, 8), (20, 9)])]]"
    by (simp add: demo_store_def demo_search_def in_range_def)
  have m: "group_by_transient_map (demo_request [1, 2] SERIES True)
      (paramid (mk_sample 2 (10, 8))) = None"
    by (simp add: demo_request_def mk_sample_def)
  note t = query_group_by_validate_and_drop [OF g, where search = demo_search and rd = demo_read
      and cs = demo_store and q = "demo_consumer 10" and fuel = "Suc 0"]
  from t ord ap have eq: "ColumnStore_query demo_search demo_read demo_store
      (demo_request [1, 2] SERIES True) (demo_consumer 10) (Suc 0) =
    validate_and_drop demo_read (group_by_transient_map (demo_request [1, 2] SERIES True))
      (ChainIterator_new (select_ids (demo_request [1, 2] SERIES True))
         (hit_iters demo_search demo_store (select_begin (demo_request [1, 2] SERIES True))
            (select_end (demo_request [1, 2] SERIES True))
            (select_ids (demo_request [1, 2] SERIES True))))
      (foldl set_error (demo_consumer 10)
         (replicate (length (missing_ids demo_store (select_ids (demo_request [1, 2] SERIES True))))
            AKU_ENOT_FOUND))
      (Suc 0)"
    and nm: "missing_ids demo_store (select_ids (demo_request [1, 2] SERIES True)) = []"
    by blast+
  have e: "ColumnStore_query demo_search demo_read demo_store (demo_request [1, 2] SERIES True)
       (demo_consumer 10) (Suc 0) =
     (Returned, \<lparr>respond = demo_respond 10, history = [SetError AKU_EBAD_DATA]\<rparr>)"
    unfolding eq nm
    by (simp add: demo_request_def demo_store_def demo_search_def in_range_def
        demo_consumer_def set_error_def ChainIterator_new_def ChainIterator_read_def
        chain_loop_unfold chain_loop_end dest_size_def mk_sample_def)
  have si: "select_ids (demo_request [1, 2] SERIES True) = [1, 2]"
    by (simp add: demo_request_def)
  have c12: "columns demo_store 1 \<noteq> None" "columns demo_store 2 \<noteq> None"
    by (simp_all add: demo_store_def)
  from g ord si c12 hi m e show ?thesis by blast
qed

text \<open>
  C9. With group-by disabled: if among the calls a query makes to the consumer there is a
  \<^verbatim>\<open>put\<close> that the consumer answers with \<open>false\<close>, then that call is the last call
  of the query (no further \<^verbatim>\<open>put\<close>, no \<^verbatim>\<open>set_error\<close>) and the query has returned.
\<close>

theorem query_back_pressure:
  assumes "\<not> group_by_enabled req"
      and "ColumnStore_query search rd cs req q fuel = (out, q')"
      and "history q' = history q @ pre @ Put s # post"
      and "\<not> respond q (history q @ pre) s"
  shows "post = [] \<and> out = Returned"
proof -
  obtain its q1 where o: "open_iters search cs (select_begin req) (select_end req)
      (select_ids req) [] q = (its, q1)"
    by (metis prod.exhaust)
  from open_iters_history [OF o] obtain k where
    r1: "respond q1 = respond q"
    and h1: "history q1 = history q @ replicate k (SetError AKU_ENOT_FOUND)"
    by blast
  obtain iter q2 where i: "(if order_by req = SERIES
       then (Some (ChainIterator_new (select_ids req) its), q1)
       else (None, set_error q1 AKU_ENOT_IMPLEMENTED)) = (iter, q2)"
    by fastforce
  have "\<exists>e12. respond q2 = respond q \<and> history q2 = history q @ e12 \<and>
      accepted (respond q) (history q) e12"
  proof (cases "order_by req = SERIES")
    case True
    with i r1 h1 have "respond q2 = respond q \<and>
        history q2 = history q @ replicate k (SetError AKU_ENOT_FOUND) \<and>
        accepted (respond q) (history q) (replicate k (SetError AKU_ENOT_FOUND))"
      by auto
    then show ?thesis by blast
  next
    case False
    with i r1 h1 have "respond q2 = respond q \<and>
        history q2 = history q @ (replicate k (SetError AKU_ENOT_FOUND) @ [SetError AKU_ENOT_IMPLEMENTED]) \<and>
        accepted (respond q) (history q)
          (replicate k (SetError AKU_ENOT_FOUND) @ [SetError AKU_ENOT_IMPLEMENTED])"
      by (auto simp: accepted_append)
    then show ?thesis by blast
  qed
  then obtain e12 where r2: "respond q2 = respond q" and h2: "history q2 = history q @ e12"
    and a2: "accepted (respond q) (history q) e12"
    by blast
  from assms(2) o i have "query_loop rd req iter q2 fuel = (out, q')"
    by (simp add: ColumnStore_query_def)
  from query_loop_inv [OF assms(1) this] obtain e3 where
    h3: "history q' = history q2 @ e3"
    and i3: "accepted (respond q2) (history q2) e3 \<or>
             out = Returned \<and> stopped (respond q2) (history q2) e3"
    by blast
  from h2 h3 assms(3) have evs: "e12 @ e3 = pre @ Put s # post" by simp
  from i3 r2 h2 a2 have "accepted (respond q) (history q) (e12 @ e3) \<or>
      out = Returned \<and> stopped (respond q) (history q) (e12 @ e3)"
    by (auto simp: accepted_append stopped_append)
  then have "accepted (respond q) (history q) (pre @ Put s # post) \<or>
      out = Returned \<and> stopped (respond q) (history q) (pre @ Put s # post)"
    unfolding evs .
  with assms(4) show ?thesis
    using accepted_refused stopped_refused by blast
qed

theorem query_back_pressure_witness:
  "\<not> group_by_enabled (demo_request [1, 2] SERIES False) \<and>
   ColumnStore_query demo_search demo_read demo_store (demo_request [1, 2] SERIES False)
       (demo_consumer 1) (Suc 0) =
     (Returned,
      \<lparr>respond = demo_respond 1,
       history = [Put (mk_sample 1 (10, 7)), Put (mk_sample 2 (10, 8))]\<rparr>) \<and>
   \<not> respond (demo_consumer 1) (history (demo_consumer 1) @ [Put (mk_sample 1 (10, 7))])
       (mk_sample 2 (10, 8))"
proof -
  have g: "\<not> group_by_enabled (demo_request [1, 2] SERIES False)"
    by (simp add: demo_request_def)
  have e: "ColumnStore_query demo_search demo_read demo_store (demo_request [1, 2] SERIES False)
       (demo_consumer 1) (Suc 0) =
     (Returned,
      \<lparr>respond = demo_respond 1,
       history = [Put (mk_sample 1 (10, 7)), Put (mk_sample 2 (10, 8))]\<rparr>)"
    by (simp add: ColumnStore_query_def demo_request_def demo_store_def demo_search_def
      demo_consumer_def set_error_def ChainIterator_new_def ChainIterator_read_def
      chain_loop_unfold chain_loop_end dest_size_def in_range_def put_def demo_respond_def)
  have h: "history \<lparr>respond = demo_respond 1,
       history = [Put (mk_sample 1 (10, 7)), Put (mk_sample 2 (10, 8))]\<rparr> =
      history (demo_consumer 1) @ [Put (mk_sample 1 (10, 7))] @ Put (mk_sample 2 (10, 8)) # []"
    by (simp add: demo_consumer_def)
  have n: "\<not> respond (demo_consumer 1) (history (demo_consumer 1) @ [Put (mk_sample 1 (10, 7))])
       (mk_sample 2 (10, 8))"
    by (simp add: demo_consumer_def demo_respond_def)
  from query_back_pressure [OF g e h n] g e n show ?thesis by blast
qed

end
